theory Spec2Isabelle
  imports
    Complex_Main
    "HOL-Library.Char_ord"
    "HOL-Library.List_Lexorder"
    "HOL-Library.FSet"
    "HOL-Library.Multiset"
begin

section \<open>The task manager of \<^verbatim>\<open>task_manager.py\<close>\<close>

text \<open>
  The program keeps a Python list of dictionaries, one per task, and offers menu commands
  that read their arguments from standard input with \<^verbatim>\<open>input()\<close>. The embedding below
  follows the source function by function.

  \<^item> A task dictionary is a record. The keys \<^verbatim>\<open>id\<close>, \<^verbatim>\<open>title\<close>, \<^verbatim>\<open>description\<close>,
    \<^verbatim>\<open>due_date\<close> and \<^verbatim>\<open>status\<close> are read with \<^verbatim>\<open>t['key']\<close> and hold strings; the key
    \<^verbatim>\<open>priority\<close> is read with \<^verbatim>\<open>t.get('priority', 'Medium')\<close>, so it may be absent and is
    an \<open>option\<close>. The key \<^verbatim>\<open>id\<close> is the field \<open>task_id\<close>, since \<open>id\<close> is the identity of HOL.
    Status and priority are strings, as in the source: nothing in the type restricts them
    to the values of \<^verbatim>\<open>STATUS_OPTIONS\<close> and \<^verbatim>\<open>PRIORITY_LEVELS\<close>.
  \<^item> The list of tasks is a HOL list. Every dictionary in it is an object of its own
    (\<^verbatim>\<open>json.load\<close> and \<^verbatim>\<open>add_task\<close> build fresh ones), so assigning to a key of the task
    found at position \<open>i\<close> is the list update \<open>tasks[i := task']\<close>.
  \<^item> Standard input is the list of the lines still to be read. \<^verbatim>\<open>input()\<close> takes the
    first one and raises \<^verbatim>\<open>EOFError\<close> on the empty list. An exception leaves \<^verbatim>\<open>main\<close>
    and ends the process, so a failed command returns \<open>Inl EOFError\<close> and no store.
  \<^item> A command returns what it printed last (the \<open>outcome\<close>), the list of tasks after
    it, and the input left. \<^verbatim>\<open>save_tasks(tasks)\<close> is called exactly on the branches with
    outcome \<open>Saved\<close>, with the list returned there.
  \<^item> Strings are lists of bytes. \<^verbatim>\<open>strip\<close>, \<^verbatim>\<open>lower\<close> and \<^verbatim>\<open>capitalize\<close> are modelled
    on ASCII: white space and letters outside ASCII are left as they are.
\<close>

subsection \<open>Data\<close>

record task =
  task_id :: string
  title :: string
  description :: string
  due_date :: string
  status :: string
  priority :: "string option"

definition PRIORITY_LEVELS :: "string list" where
  "PRIORITY_LEVELS = [''Low'', ''Medium'', ''High'']"

definition STATUS_OPTIONS :: "string list" where
  "STATUS_OPTIONS = [''Pending'', ''Completed'']"

datatype py_error = EOFError

datatype outcome = Saved | NotFound

subsection \<open>Strings\<close>

text \<open>\<^verbatim>\<open>str.isspace\<close> on ASCII: tab to carriage return, the four separators, space.\<close>

definition isspace :: "char \<Rightarrow> bool" where
  "isspace c = (c \<in> set [CHR 0x09, CHR 0x0A, CHR 0x0B, CHR 0x0C, CHR 0x0D,
                          CHR 0x1C, CHR 0x1D, CHR 0x1E, CHR 0x1F, CHR '' ''])"

definition strip :: "string \<Rightarrow> string" where
  "strip s = rev (dropWhile isspace (rev (dropWhile isspace s)))"

definition lower_char :: "char \<Rightarrow> char" where
  "lower_char c =
     (case map_of (zip ''ABCDEFGHIJKLMNOPQRSTUVWXYZ'' ''abcdefghijklmnopqrstuvwxyz'') c of
        Some d \<Rightarrow> d
      | None \<Rightarrow> c)"

definition upper_char :: "char \<Rightarrow> char" where
  "upper_char c =
     (case map_of (zip ''abcdefghijklmnopqrstuvwxyz'' ''ABCDEFGHIJKLMNOPQRSTUVWXYZ'') c of
        Some d \<Rightarrow> d
      | None \<Rightarrow> c)"

definition lower :: "string \<Rightarrow> string" where
  "lower s = map lower_char s"

text \<open>\<^verbatim>\<open>str.capitalize\<close>: the first character in upper case, the others in lower case.\<close>

definition capitalize :: "string \<Rightarrow> string" where
  "capitalize s = (case s of [] \<Rightarrow> [] | c # cs \<Rightarrow> upper_char c # lower cs)"

text \<open>The test \<^verbatim>\<open>keyword in s\<close> on strings: \<open>keyword\<close> occurs in \<open>s\<close> as a substring.\<close>

fun contains :: "string \<Rightarrow> string \<Rightarrow> bool" where
  "contains [] keyword = (keyword = [])"
| "contains (c # s) keyword =
     (take (length keyword) (c # s) = keyword \<or> contains s keyword)"

text \<open>
  \<^verbatim>\<open>str(n)\<close> on an integer: the decimal digits, most significant first, after a minus
  sign when \<open>n\<close> is negative.
\<close>

definition digit_char :: "nat \<Rightarrow> char" where
  "digit_char d = ''0123456789'' ! d"

fun str_nat :: "nat \<Rightarrow> string" where
  "str_nat n =
     (if n < 10 then [digit_char n] else str_nat (n div 10) @ [digit_char (n mod 10)])"

declare str_nat.simps [simp del]

definition str :: "int \<Rightarrow> string" where
  "str i = (if i < 0 then CHR ''-'' # str_nat (nat (- i)) else str_nat (nat i))"

text \<open>
  The loop of \<^verbatim>\<open>generate_task_id\<close> ends because \<open>str\<close> is injective; reading a numeral
  back is its left inverse.
\<close>

definition digit_val :: "char \<Rightarrow> nat" where
  "digit_val c = of_char c - 48"

definition nat_of_str :: "string \<Rightarrow> nat" where
  "nat_of_str s = foldl (\<lambda>a c. 10 * a + digit_val c) 0 s"

lemma digit_val_digit_char: "d < 10 \<Longrightarrow> digit_val (digit_char d) = d"
proof -
  assume "d < 10"
  then have "d \<in> {0, 1, 2, 3, 4, 5, 6, 7, 8, 9}" by auto
  then show ?thesis
    by (auto simp: digit_val_def digit_char_def)
qed

lemma digit_char_not_minus: "d < 10 \<Longrightarrow> digit_char d \<noteq> CHR ''-''"
proof -
  assume "d < 10"
  then have "d \<in> {0, 1, 2, 3, 4, 5, 6, 7, 8, 9}" by auto
  then show ?thesis
    by (auto simp: digit_char_def)
qed

lemma nat_of_str_str_nat: "nat_of_str (str_nat n) = n"
proof (induction n rule: str_nat.induct)
  case (1 n)
  show ?case
  proof (cases "n < 10")
    case True
    then show ?thesis
      by (subst str_nat.simps) (simp add: nat_of_str_def digit_val_digit_char)
  next
    case False
    with 1 have "nat_of_str (str_nat (n div 10)) = n div 10" by simp
    with False show ?thesis
      by (subst str_nat.simps) (simp add: nat_of_str_def digit_val_digit_char)
  qed
qed

lemma str_nat_inj: "str_nat m = str_nat n \<Longrightarrow> m = n"
  by (metis nat_of_str_str_nat)

lemma str_nat_starts_with_digit: "\<exists>d cs. d < 10 \<and> str_nat n = digit_char d # cs"
proof (induction n rule: str_nat.induct)
  case (1 n)
  show ?case
  proof (cases "n < 10")
    case True
    then show ?thesis by (subst str_nat.simps) auto
  next
    case False
    with 1 obtain d cs where "d < 10" "str_nat (n div 10) = digit_char d # cs" by blast
    with False show ?thesis by (subst str_nat.simps) auto
  qed
qed

lemma str_nat_not_minus: "str_nat n \<noteq> CHR ''-'' # cs"
proof
  assume eq: "str_nat n = CHR ''-'' # cs"
  obtain d ds where "d < 10" "str_nat n = digit_char d # ds"
    using str_nat_starts_with_digit by blast
  with eq have "digit_char d = CHR ''-''" by simp
  with \<open>d < 10\<close> show False using digit_char_not_minus by blast
qed

lemma str_inj: "str i = str j \<Longrightarrow> i = j"
  using str_nat_not_minus str_nat_not_minus [symmetric]
  by (auto simp: str_def dest!: str_nat_inj split: if_splits)

subsection \<open>Standard input\<close>

definition input :: "string list \<Rightarrow> py_error + string \<times> string list" where
  "input stdin = (case stdin of [] \<Rightarrow> Inl EOFError | line # rest \<Rightarrow> Inr (line, rest))"

subsection \<open>File handling\<close>

text \<open>
  \<^verbatim>\<open>json.load\<close> is a library function. It returns a Python value built from dictionaries,
  lists, strings, numbers, booleans and \<^verbatim>\<open>None\<close>, or raises \<^verbatim>\<open>JSONDecodeError\<close> when the
  text is not JSON. The state of \<^verbatim>\<open>tasks.json\<close> at the call is either that the file is
  not there, or what \<^verbatim>\<open>json.load\<close> does on its content. The file is taken to be a
  readable text file: \<^verbatim>\<open>open\<close> and the decoding of its bytes do not fail.
\<close>

datatype json =
    JNone
  | JBool bool
  | JInt int
  | JFloat real
  | JStr string
  | JList "json list"
  | JDict "(string \<times> json) list"

datatype json_load = JSONDecodeError | Loaded json

datatype tasks_file = Missing | Content json_load

definition load_tasks :: "tasks_file \<Rightarrow> json" where
  "load_tasks file =
     (case file of
        Missing \<Rightarrow> JList []
      | Content c \<Rightarrow>
          (case c of
             Loaded v \<Rightarrow> v
           | JSONDecodeError \<Rightarrow> JList []))"

text \<open>A Python value is a sequence when it is a list.\<close>

fun is_list :: "json \<Rightarrow> bool" where
  "is_list (JList _) = True"
| "is_list _ = False"

subsection \<open>Utility functions\<close>

text \<open>
  \<^verbatim>\<open>existing_ids\<close> is a Python set, finite by construction; the loop counts \<open>new_id\<close> up
  from 1 until its rendering is not in the set.
\<close>

function id_loop :: "string fset \<Rightarrow> int \<Rightarrow> int" where
  "id_loop existing_ids new_id =
     (if str new_id |\<in>| existing_ids then id_loop existing_ids (new_id + 1) else new_id)"
  by pat_completeness auto
termination
proof (relation "measure (\<lambda>(ids, n). card {s. s |\<in>| ids \<and> (\<exists>k\<ge>n. s = str k)})")
  show "wf (measure (\<lambda>(ids, n). card {s. s |\<in>| ids \<and> (\<exists>k\<ge>n. s = str k)}))"
    by simp
next
  fix existing_ids :: "string fset" and new_id :: int
  assume mem: "str new_id |\<in>| existing_ids"
  let ?A = "\<lambda>n. {s. s |\<in>| existing_ids \<and> (\<exists>k\<ge>n. s = str k)}"
  have fin: "finite (?A new_id)" by simp
  have sub: "?A (new_id + 1) \<subseteq> ?A new_id"
  proof
    fix s assume "s \<in> ?A (new_id + 1)"
    then obtain k where "s |\<in>| existing_ids" "new_id + 1 \<le> k" "s = str k" by blast
    then have "s |\<in>| existing_ids \<and> new_id \<le> k \<and> s = str k" by simp
    then show "s \<in> ?A new_id" by blast
  qed
  have "str new_id \<in> ?A new_id" using mem by auto
  moreover have "str new_id \<notin> ?A (new_id + 1)"
    using str_inj by fastforce
  ultimately have "?A (new_id + 1) \<subset> ?A new_id" using sub by blast
  then have "card (?A (new_id + 1)) < card (?A new_id)"
    using fin by (rule psubset_card_mono [rotated])
  then show "((existing_ids, new_id + 1), (existing_ids, new_id))
      \<in> measure (\<lambda>(ids, n). card {s. s |\<in>| ids \<and> (\<exists>k\<ge>n. s = str k)})"
    by simp
qed

declare id_loop.simps [simp del]

definition generate_task_id :: "task list \<Rightarrow> string" where
  "generate_task_id tasks =
     (let existing_ids = fset_of_list (map task_id tasks);
          new_id = id_loop existing_ids 1
      in str new_id)"

text \<open>
  \<^verbatim>\<open>datetime.strptime\<close> is a library function: \<open>strptime_ok\<close> tells on which strings
  \<^verbatim>\<open>datetime.strptime(date_str, DATE_FORMAT)\<close> returns, where it raises \<^verbatim>\<open>ValueError\<close>
  otherwise. It is a parameter of every command that validates a date.
\<close>

definition validate_date :: "(string \<Rightarrow> bool) \<Rightarrow> string \<Rightarrow> bool" where
  "validate_date strptime_ok date_str = (if strptime_ok date_str then True else False)"

text \<open>\<^verbatim>\<open>t.get('priority', 'Medium')\<close>\<close>

definition get_priority :: "task \<Rightarrow> string" where
  "get_priority t = (case priority t of Some p \<Rightarrow> p | None \<Rightarrow> ''Medium'')"

text \<open>
  The scan \<^verbatim>\<open>for i, task in enumerate(tasks): if task['id'] == task_id: ...; return\<close>
  that \<^verbatim>\<open>update_task\<close>, \<^verbatim>\<open>mark_completed\<close> and \<^verbatim>\<open>delete_task\<close> share: the first task
  with the given id and its position, or \<open>None\<close> when the loop runs to its end.
\<close>

fun find_task :: "(nat \<times> task) list \<Rightarrow> string \<Rightarrow> (nat \<times> task) option" where
  "find_task [] tid = None"
| "find_task ((i, task) # rest) tid =
     (if task_id task = tid then Some (i, task) else find_task rest tid)"

text \<open>\<^verbatim>\<open>tasks.pop(i)\<close> for an index in range.\<close>

definition pop :: "'a list \<Rightarrow> nat \<Rightarrow> 'a list" where
  "pop xs i = take i xs @ drop (Suc i) xs"

subsection \<open>Core features\<close>

text \<open>The two \<^verbatim>\<open>while True\<close> loops of \<^verbatim>\<open>add_task\<close>: ask again until the answer is valid.\<close>

fun read_due_date :: "(string \<Rightarrow> bool) \<Rightarrow> string list \<Rightarrow> py_error + string \<times> string list" where
  "read_due_date strptime_ok [] = Inl EOFError"
| "read_due_date strptime_ok (line # stdin) =
     (let due = strip line
      in if validate_date strptime_ok due then Inr (due, stdin)
         else read_due_date strptime_ok stdin)"

fun read_priority :: "string list \<Rightarrow> py_error + string \<times> string list" where
  "read_priority [] = Inl EOFError"
| "read_priority (line # stdin) =
     (let prio = capitalize (strip line)
      in if prio \<in> set PRIORITY_LEVELS then Inr (prio, stdin)
         else read_priority stdin)"

definition add_task ::
  "(string \<Rightarrow> bool) \<Rightarrow> task list \<Rightarrow> string list \<Rightarrow> py_error + outcome \<times> task list \<times> string list"
where
  "add_task strptime_ok tasks stdin =
     (case input stdin of Inl e \<Rightarrow> Inl e | Inr (line1, stdin1) \<Rightarrow>
      case input stdin1 of Inl e \<Rightarrow> Inl e | Inr (line2, stdin2) \<Rightarrow>
      case read_due_date strptime_ok stdin2 of Inl e \<Rightarrow> Inl e | Inr (due, stdin3) \<Rightarrow>
      case read_priority stdin3 of Inl e \<Rightarrow> Inl e | Inr (prio, stdin4) \<Rightarrow>
        (let tid = generate_task_id tasks;
             task = \<lparr>task_id = tid, title = strip line1, description = strip line2,
                     due_date = due, status = ''Pending'', priority = Some prio\<rparr>
         in Inr (Saved, tasks @ [task], stdin4)))"

text \<open>The four questions of \<^verbatim>\<open>update_task\<close>, asked once the task is found.\<close>

definition update_description :: "task \<Rightarrow> string list \<Rightarrow> py_error + task \<times> string list" where
  "update_description task stdin =
     (case input stdin of Inl e \<Rightarrow> Inl e | Inr (line, stdin') \<Rightarrow>
        (let desc = strip line
         in Inr (if desc \<noteq> [] then task\<lparr>description := desc\<rparr> else task, stdin')))"

fun update_due_date ::
  "(string \<Rightarrow> bool) \<Rightarrow> task \<Rightarrow> string list \<Rightarrow> py_error + task \<times> string list"
where
  "update_due_date strptime_ok task [] = Inl EOFError"
| "update_due_date strptime_ok task (line # stdin) =
     (let due = strip line
      in if due = [] then Inr (task, stdin)
         else if validate_date strptime_ok due then Inr (task\<lparr>due_date := due\<rparr>, stdin)
         else update_due_date strptime_ok task stdin)"

definition update_status :: "task \<Rightarrow> string list \<Rightarrow> py_error + task \<times> string list" where
  "update_status task stdin =
     (case input stdin of Inl e \<Rightarrow> Inl e | Inr (line, stdin') \<Rightarrow>
        (let stat = capitalize (strip line)
         in Inr (if stat \<in> set STATUS_OPTIONS then task\<lparr>status := stat\<rparr> else task,
                 stdin')))"

definition update_priority :: "task \<Rightarrow> string list \<Rightarrow> py_error + task \<times> string list" where
  "update_priority task stdin =
     (case input stdin of Inl e \<Rightarrow> Inl e | Inr (line, stdin') \<Rightarrow>
        (let prio = capitalize (strip line)
         in Inr (if prio \<in> set PRIORITY_LEVELS then task\<lparr>priority := Some prio\<rparr>
                 else task,
                 stdin')))"

definition update_fields ::
  "(string \<Rightarrow> bool) \<Rightarrow> task \<Rightarrow> string list \<Rightarrow> py_error + task \<times> string list"
where
  "update_fields strptime_ok task stdin =
     (case update_description task stdin of Inl e \<Rightarrow> Inl e | Inr (task1, stdin1) \<Rightarrow>
      case update_due_date strptime_ok task1 stdin1 of Inl e \<Rightarrow> Inl e | Inr (task2, stdin2) \<Rightarrow>
      case update_status task2 stdin2 of Inl e \<Rightarrow> Inl e | Inr (task3, stdin3) \<Rightarrow>
        update_priority task3 stdin3)"

definition update_task ::
  "(string \<Rightarrow> bool) \<Rightarrow> task list \<Rightarrow> string list \<Rightarrow> py_error + outcome \<times> task list \<times> string list"
where
  "update_task strptime_ok tasks stdin =
     (case input stdin of Inl e \<Rightarrow> Inl e | Inr (line, stdin1) \<Rightarrow>
        (let tid = strip line
         in case find_task (enumerate 0 tasks) tid of
              Some (i, task) \<Rightarrow>
                (case update_fields strptime_ok task stdin1 of
                   Inl e \<Rightarrow> Inl e
                 | Inr (task', stdin2) \<Rightarrow> Inr (Saved, tasks[i := task'], stdin2))
            | None \<Rightarrow> Inr (NotFound, tasks, stdin1)))"

definition mark_completed ::
  "task list \<Rightarrow> string list \<Rightarrow> py_error + outcome \<times> task list \<times> string list"
where
  "mark_completed tasks stdin =
     (case input stdin of Inl e \<Rightarrow> Inl e | Inr (line, stdin1) \<Rightarrow>
        (let tid = strip line
         in case find_task (enumerate 0 tasks) tid of
              Some (i, task) \<Rightarrow> Inr (Saved, tasks[i := task\<lparr>status := ''Completed''\<rparr>], stdin1)
            | None \<Rightarrow> Inr (NotFound, tasks, stdin1)))"

definition delete_task ::
  "task list \<Rightarrow> string list \<Rightarrow> py_error + outcome \<times> task list \<times> string list"
where
  "delete_task tasks stdin =
     (case input stdin of Inl e \<Rightarrow> Inl e | Inr (line, stdin1) \<Rightarrow>
        (let tid = strip line
         in case find_task (enumerate 0 tasks) tid of
              Some (i, task) \<Rightarrow> Inr (Saved, pop tasks i, stdin1)
            | None \<Rightarrow> Inr (NotFound, tasks, stdin1)))"

text \<open>
  The commands that only print return the list they hand to \<^verbatim>\<open>print_table\<close>, or the
  numbers they print.
\<close>

definition search_tasks :: "task list \<Rightarrow> string list \<Rightarrow> py_error + task list \<times> string list" where
  "search_tasks tasks stdin =
     (case input stdin of Inl e \<Rightarrow> Inl e | Inr (line, stdin1) \<Rightarrow>
        (let keyword = lower (strip line);
             found = filter (\<lambda>t. contains (lower (title t)) keyword
                                \<or> contains (lower (description t)) keyword) tasks
         in Inr (found, stdin1)))"

datatype filter_result = Filtered "task list" | InvalidPriority | InvalidOption

definition filter_tasks ::
  "task list \<Rightarrow> string list \<Rightarrow> py_error + filter_result \<times> string list"
where
  "filter_tasks tasks stdin =
     (case input stdin of Inl e \<Rightarrow> Inl e | Inr (line1, stdin1) \<Rightarrow>
        (let choice = strip line1
         in if choice = ''1'' then
              Inr (Filtered (filter (\<lambda>t. status t = ''Pending'') tasks), stdin1)
            else if choice = ''2'' then
              Inr (Filtered (filter (\<lambda>t. status t = ''Completed'') tasks), stdin1)
            else if choice = ''3'' then
              (case input stdin1 of Inl e \<Rightarrow> Inl e | Inr (line2, stdin2) \<Rightarrow>
                 (let pr = capitalize (strip line2)
                  in if pr \<in> set PRIORITY_LEVELS then
                       Inr (Filtered (filter (\<lambda>t. get_priority t = pr) tasks), stdin2)
                     else Inr (InvalidPriority, stdin2)))
            else Inr (InvalidOption, stdin1)))"

record summary =
  total :: int
  pending :: int
  completed :: int

definition task_summary :: "task list \<Rightarrow> summary" where
  "task_summary tasks =
     \<lparr>total = int (length tasks),
      pending = sum_list (map (\<lambda>t. 1) (filter (\<lambda>t. status t = ''Pending'') tasks)),
      completed = sum_list (map (\<lambda>t. 1) (filter (\<lambda>t. status t = ''Completed'') tasks))\<rparr>"

text \<open>
  \<^verbatim>\<open>sorted(tasks, key=lambda t: t['due_date'])\<close>: Python's \<^verbatim>\<open>sorted\<close> is stable and compares
  the keys as strings, character by character. A stable sort has one result only, the one
  of the insertion sort \<open>sort_key\<close> on the lexicographic order of strings.
\<close>

definition sort_tasks :: "task list \<Rightarrow> task list" where
  "sort_tasks tasks = sort_key (\<lambda>t. due_date t) tasks"

subsection \<open>The commands that change the store\<close>

text \<open>
  One step of the store: any of the four commands of the menu that change the list of
  tasks, run on any input on which it returns.
\<close>

inductive store_step :: "(string \<Rightarrow> bool) \<Rightarrow> task list \<Rightarrow> task list \<Rightarrow> bool"
  for strptime_ok :: "string \<Rightarrow> bool"
where
  Add: "add_task strptime_ok tasks stdin = Inr (out, tasks', stdin') \<Longrightarrow>
          store_step strptime_ok tasks tasks'"
| Update: "update_task strptime_ok tasks stdin = Inr (out, tasks', stdin') \<Longrightarrow>
          store_step strptime_ok tasks tasks'"
| MarkCompleted: "mark_completed tasks stdin = Inr (out, tasks', stdin') \<Longrightarrow>
          store_step strptime_ok tasks tasks'"
| Delete: "delete_task tasks stdin = Inr (out, tasks', stdin') \<Longrightarrow>
          store_step strptime_ok tasks tasks'"

subsection \<open>Tasks and input for the examples\<close>

definition sample_task :: "string \<Rightarrow> task" where
  "sample_task i = \<lparr>task_id = i, title = ''Buy milk'', description = '''',
     due_date = ''2024-01-05'', status = ''Pending'', priority = Some ''Low''\<rparr>"

definition milk :: task where
  "milk = \<lparr>task_id = ''1'', title = ''Buy milk'', description = [],
     due_date = ''2024-01-05'', status = ''Pending'', priority = Some ''Low''\<rparr>"

definition bills :: task where
  "bills = \<lparr>task_id = ''2'', title = ''Pay bills'', description = ''rent and power'',
     due_date = ''2024-01-01'', status = ''Pending'', priority = Some ''High''\<rparr>"

definition legacy :: task where
  "legacy = \<lparr>task_id = ''3'', title = ''Call home'', description = [],
     due_date = ''2024-01-05'', status = ''Completed'', priority = None\<rparr>"

text \<open>
  In the examples \<^verbatim>\<open>strptime\<close> accepts the two dates that occur in them and rejects
  everything else that is entered.
\<close>

definition sample_strptime_ok :: "string \<Rightarrow> bool" where
  "sample_strptime_ok s = (s \<in> set [''2024-01-05'', ''2024-01-01''])"

definition errand :: task where
  "errand = \<lparr>task_id = ''1'', title = ''Post letter'', description = [],
     due_date = ''2024-01-01'', status = ''Pending'', priority = Some ''Medium''\<rparr>"

section \<open>Identifier assignment\<close>

text \<open>
  The loop returns the least number from its start on whose rendering is not in the set,
  and that number is the only one with this property.
\<close>

lemma id_loop_spec:
  "n \<le> id_loop ids n \<and> str (id_loop ids n) |\<notin>| ids \<and>
   (\<forall>k. n \<le> k \<and> k < id_loop ids n \<longrightarrow> str k |\<in>| ids)"
proof (induction ids n rule: id_loop.induct)
  case (1 ids n)
  show ?case
  proof (cases "str n |\<in>| ids")
    case True
    then have eq: "id_loop ids n = id_loop ids (n + 1)"
      by (subst id_loop.simps) simp
    have ih: "n + 1 \<le> id_loop ids (n + 1) \<and> str (id_loop ids (n + 1)) |\<notin>| ids \<and>
       (\<forall>k. n + 1 \<le> k \<and> k < id_loop ids (n + 1) \<longrightarrow> str k |\<in>| ids)"
      using 1 True by simp
    have "\<And>k. n \<le> k \<Longrightarrow> k < id_loop ids (n + 1) \<Longrightarrow> str k |\<in>| ids"
    proof -
      fix k assume "n \<le> k" "k < id_loop ids (n + 1)"
      then show "str k |\<in>| ids" using ih True by (cases "k = n") auto
    qed
    with ih show ?thesis unfolding eq by auto
  next
    case False
    then have "id_loop ids n = n" by (subst id_loop.simps) simp
    with False show ?thesis by auto
  qed
qed

text \<open>
  Claim C1. For every list of tasks, \<^verbatim>\<open>generate_task_id\<close> returns the rendering of the
  smallest positive integer whose rendering is not the id of a task of the list; the
  result depends on the set of ids only, so any list with the same ids gives the same
  result.
\<close>

theorem generate_task_id_smallest_unused:
  "\<exists>n. generate_task_id tasks = str n \<and> 1 \<le> n \<and>
       str n \<notin> task_id ` set tasks \<and>
       (\<forall>k. 1 \<le> k \<and> k < n \<longrightarrow> str k \<in> task_id ` set tasks) \<and>
       (\<forall>tasks'. task_id ` set tasks' = task_id ` set tasks \<longrightarrow>
          generate_task_id tasks' = str n)"
proof -
  let ?ids = "fset_of_list (map task_id tasks)"
  let ?n = "id_loop ?ids 1"
  have spec: "1 \<le> ?n" "str ?n |\<notin>| ?ids" "\<forall>k. 1 \<le> k \<and> k < ?n \<longrightarrow> str k |\<in>| ?ids"
    using id_loop_spec [of 1 ?ids] by auto
  have mem: "\<And>s. s |\<in>| ?ids \<longleftrightarrow> s \<in> task_id ` set tasks"
    by (simp add: fset_of_list.rep_eq)
  have same: "generate_task_id tasks' = str ?n"
    if "task_id ` set tasks' = task_id ` set tasks" for tasks'
  proof -
    have "fset_of_list (map task_id tasks') = ?ids"
      using that by (simp add: fset_eq_iff fset_of_list.rep_eq)
    then show ?thesis by (simp add: generate_task_id_def)
  qed
  have "generate_task_id tasks = str ?n"
    by (simp add: generate_task_id_def)
  with spec mem same show ?thesis by blast
qed

theorem generate_task_id_smallest_unused_witness:
  "generate_task_id [sample_task ''1'', sample_task ''3''] = ''2''"
proof -
  let ?tasks = "[sample_task ''1'', sample_task ''3'']"
  have ids: "task_id ` set ?tasks = {''1'', ''3''}"
    by (simp add: sample_task_def)
  obtain n where n: "generate_task_id ?tasks = str n" "1 \<le> n"
      "str n \<notin> task_id ` set ?tasks"
      "\<forall>k. 1 \<le> k \<and> k < n \<longrightarrow> str k \<in> task_id ` set ?tasks"
    using generate_task_id_smallest_unused [of ?tasks] by blast
  have s1: "str 1 = ''1''" and s2: "str 2 = ''2''"
    by (simp_all add: str_def str_nat.simps digit_char_def)
  have "str 1 \<in> task_id ` set ?tasks" unfolding ids s1 by simp
  then have "n \<noteq> 1" using n(3) by auto
  moreover have "\<not> 2 < n"
  proof
    assume "2 < n"
    then have "str 2 \<in> task_id ` set ?tasks" using n(4) by simp
    then show False unfolding ids s2 by simp
  qed
  ultimately have "n = 2" using n(2) by simp
  then show ?thesis using n(1) s2 by simp
qed

section \<open>Finding a task by its id\<close>

text \<open>
  The scan finds nothing exactly when no task has the id; what it finds is the first task
  with the id, at its position in the list.
\<close>

lemma find_task_None_iff:
  "find_task (enumerate n tasks) tid = None \<longleftrightarrow> tid \<notin> task_id ` set tasks"
  by (induction tasks arbitrary: n) auto

lemma find_task_SomeD:
  "find_task (enumerate n tasks) tid = Some (i, task) \<Longrightarrow>
     n \<le> i \<and> i - n < length tasks \<and> tasks ! (i - n) = task \<and> task_id task = tid \<and>
     (\<forall>j<i - n. task_id (tasks ! j) \<noteq> tid)"
proof (induction tasks arbitrary: n)
  case Nil
  then show ?case by simp
next
  case (Cons x xs)
  show ?case
  proof (cases "task_id x = tid")
    case True
    with Cons.prems show ?thesis by simp
  next
    case False
    with Cons.prems have "find_task (enumerate (Suc n) xs) tid = Some (i, task)" by simp
    from Cons.IH [OF this]
    have ih: "Suc n \<le> i" "i - Suc n < length xs" "xs ! (i - Suc n) = task" "task_id task = tid"
      "\<forall>j<i - Suc n. task_id (xs ! j) \<noteq> tid" by auto
    from ih(1) have eq: "i - n = Suc (i - Suc n)" by simp
    have "\<And>j. j < i - n \<Longrightarrow> task_id ((x # xs) ! j) \<noteq> tid"
    proof -
      fix j assume "j < i - n"
      then show "task_id ((x # xs) ! j) \<noteq> tid"
        using False ih(5) eq by (cases j) auto
    qed
    with ih eq show ?thesis by simp
  qed
qed

lemma find_task_first:
  "find_task (enumerate 0 tasks) tid = Some (i, task) \<Longrightarrow>
     i < length tasks \<and> tasks ! i = task \<and> task_id task = tid \<and>
     (\<forall>j<i. task_id (tasks ! j) \<noteq> tid)"
  using find_task_SomeD [of 0 tasks tid i task] by simp

lemma find_task_present:
  assumes "tid \<in> task_id ` set tasks"
  obtains i where "i < length tasks" "task_id (tasks ! i) = tid"
    "\<forall>j<i. task_id (tasks ! j) \<noteq> tid"
    "find_task (enumerate 0 tasks) tid = Some (i, tasks ! i)"
proof -
  from assms have "find_task (enumerate 0 tasks) tid \<noteq> None"
    by (simp add: find_task_None_iff)
  then obtain i task where f: "find_task (enumerate 0 tasks) tid = Some (i, task)" by auto
  from find_task_first [OF f] f that show thesis by blast
qed

lemma mark_completed_present:
  assumes "i < length tasks" "find_task (enumerate 0 tasks) (strip line) = Some (i, tasks ! i)"
  shows "mark_completed tasks (line # stdin) =
           Inr (Saved, tasks[i := (tasks ! i)\<lparr>status := ''Completed''\<rparr>], stdin)"
  using assms by (simp add: mark_completed_def input_def)

lemma first_with_id_unique:
  assumes "i < length xs" "task_id (xs ! i) = tid" "\<forall>j<i. task_id (xs ! j) \<noteq> tid"
    and "k < length xs" "task_id (xs ! k) = tid" "\<forall>j<k. task_id (xs ! j) \<noteq> tid"
  shows "i = k"
proof (rule ccontr)
  assume "i \<noteq> k"
  then consider "i < k" | "k < i" by linarith
  then show False
  proof cases
    case 1
    with assms(6) have "task_id (xs ! i) \<noteq> tid" by blast
    with assms(2) show False by simp
  next
    case 2
    with assms(3) have "task_id (xs ! k) \<noteq> tid" by blast
    with assms(5) show False by simp
  qed
qed

section \<open>Marking a task as completed\<close>

text \<open>
  Claim C10. When the id read from the input is the id of a task of the store,
  \<^verbatim>\<open>mark_completed\<close> saves the store in which the first task with that id, at position \<open>i\<close>,
  has the status \<^verbatim>\<open>Completed\<close> and nothing else differs: the list has the same length, every
  other position holds the task it held, and the task at \<open>i\<close> keeps its id, title,
  description, due date and priority.
\<close>

theorem mark_completed_frame:
  assumes "strip line \<in> task_id ` set tasks"
  shows "\<exists>i tasks'. mark_completed tasks (line # stdin) = Inr (Saved, tasks', stdin) \<and>
           i < length tasks \<and> task_id (tasks ! i) = strip line \<and>
           (\<forall>j<i. task_id (tasks ! j) \<noteq> strip line) \<and>
           tasks' = tasks[i := (tasks ! i)\<lparr>status := ''Completed''\<rparr>] \<and>
           length tasks' = length tasks \<and>
           (\<forall>j<length tasks. j \<noteq> i \<longrightarrow> tasks' ! j = tasks ! j) \<and>
           task_id (tasks' ! i) = task_id (tasks ! i) \<and>
           title (tasks' ! i) = title (tasks ! i) \<and>
           description (tasks' ! i) = description (tasks ! i) \<and>
           due_date (tasks' ! i) = due_date (tasks ! i) \<and>
           priority (tasks' ! i) = priority (tasks ! i) \<and>
           status (tasks' ! i) = ''Completed''"
proof -
  from assms obtain i where i: "i < length tasks" "task_id (tasks ! i) = strip line"
    "\<forall>j<i. task_id (tasks ! j) \<noteq> strip line"
    "find_task (enumerate 0 tasks) (strip line) = Some (i, tasks ! i)"
    by (rule find_task_present)
  let ?tasks' = "tasks[i := (tasks ! i)\<lparr>status := ''Completed''\<rparr>]"
  have run: "mark_completed tasks (line # stdin) = Inr (Saved, ?tasks', stdin)"
    using i(1,4) by (rule mark_completed_present)
  have other: "\<forall>j<length tasks. j \<noteq> i \<longrightarrow> ?tasks' ! j = tasks ! j" by simp
  have at_i: "?tasks' ! i = (tasks ! i)\<lparr>status := ''Completed''\<rparr>" using i(1) by simp
  show ?thesis
    apply (rule exI [of _ i], rule exI [of _ ?tasks'])
    using run i(1,2,3) other by (simp add: at_i)
qed

theorem mark_completed_frame_witness:
  "strip ''1 '' \<in> task_id ` set [milk, bills, legacy] \<and>
   mark_completed [milk, bills, legacy] [''1 '', ''rest''] =
     Inr (Saved, [milk\<lparr>status := ''Completed''\<rparr>, bills, legacy], [''rest''])"
proof -
  have s: "strip ''1 '' = ''1''" by (simp add: strip_def isspace_def)
  have pre: "strip ''1 '' \<in> task_id ` set [milk, bills, legacy]"
    unfolding s by (simp add: milk_def)
  obtain i tasks' where r:
    "mark_completed [milk, bills, legacy] [''1 '', ''rest''] = Inr (Saved, tasks', [''rest''])"
    "i < length [milk, bills, legacy]" "task_id ([milk, bills, legacy] ! i) = strip ''1 ''"
    "tasks' = [milk, bills, legacy][i := ([milk, bills, legacy] ! i)\<lparr>status := ''Completed''\<rparr>]"
    using mark_completed_frame [OF pre, of "[''rest'']"] by blast
  have "i = 0"
  proof (rule ccontr)
    assume "i \<noteq> 0"
    with r(2) have "i = 1 \<or> i = 2" by auto
    with r(3) show False unfolding s by (auto simp: bills_def legacy_def)
  qed
  with r(1,4) pre show ?thesis by simp
qed

text \<open>
  Claim C4. \<^verbatim>\<open>mark_completed\<close> is idempotent: when the id is present, a first call saves
  a store in which the first task with that id is \<^verbatim>\<open>Completed\<close>, whatever its status was,
  and a second call with the same id succeeds and saves that same store again. When the
  task is \<^verbatim>\<open>Completed\<close> already, the first call saves the store as it was.
\<close>

theorem mark_completed_idempotent:
  assumes "strip line1 \<in> task_id ` set tasks" and "strip line2 = strip line1"
  shows "\<exists>i tasks'. mark_completed tasks (line1 # line2 # stdin) = Inr (Saved, tasks', line2 # stdin) \<and>
           mark_completed tasks' (line2 # stdin) = Inr (Saved, tasks', stdin) \<and>
           i < length tasks \<and> task_id (tasks ! i) = strip line1 \<and>
           (\<forall>j<i. task_id (tasks ! j) \<noteq> strip line1) \<and>
           status (tasks' ! i) = ''Completed'' \<and>
           (status (tasks ! i) = ''Completed'' \<longrightarrow> tasks' = tasks)"
proof -
  let ?tid = "strip line1"
  from assms(1) obtain i where i: "i < length tasks" "task_id (tasks ! i) = ?tid"
    "\<forall>j<i. task_id (tasks ! j) \<noteq> ?tid"
    "find_task (enumerate 0 tasks) ?tid = Some (i, tasks ! i)"
    by (rule find_task_present)
  let ?tasks' = "tasks[i := (tasks ! i)\<lparr>status := ''Completed''\<rparr>]"
  have run1: "mark_completed tasks (line1 # line2 # stdin) = Inr (Saved, ?tasks', line2 # stdin)"
    using i(1,4) by (rule mark_completed_present)
  have ids: "map task_id ?tasks' = map task_id tasks"
    using i(1) by (simp add: map_update list_update_same_conv)
  have at_i: "?tasks' ! i = (tasks ! i)\<lparr>status := ''Completed''\<rparr>" using i(1) by simp
  have id_at: "\<And>j. j < length tasks \<Longrightarrow> task_id (?tasks' ! j) = task_id (tasks ! j)"
  proof -
    fix j assume "j < length tasks"
    then show "task_id (?tasks' ! j) = task_id (tasks ! j)"
      by (cases "j = i") simp_all
  qed
  have "?tid \<in> task_id ` set ?tasks'"
    using assms(1) ids by (metis list.set_map)
  then obtain k where k: "k < length ?tasks'" "task_id (?tasks' ! k) = ?tid"
    "\<forall>j<k. task_id (?tasks' ! j) \<noteq> ?tid"
    "find_task (enumerate 0 ?tasks') ?tid = Some (k, ?tasks' ! k)"
    by (rule find_task_present)
  have "k = i"
  proof (rule first_with_id_unique)
    show "k < length ?tasks'" by (rule k(1))
    show "task_id (?tasks' ! k) = ?tid" by (rule k(2))
    show "\<forall>j<k. task_id (?tasks' ! j) \<noteq> ?tid" by (rule k(3))
    show "i < length ?tasks'" using i(1) by simp
    show "task_id (?tasks' ! i) = ?tid" using i(1,2) id_at by simp
    show "\<forall>j<i. task_id (?tasks' ! j) \<noteq> ?tid" using i(1,3) id_at by simp
  qed
  with k(4) have found: "find_task (enumerate 0 ?tasks') (strip line2) = Some (i, ?tasks' ! i)"
    using assms(2) by simp
  have "mark_completed ?tasks' (line2 # stdin) =
          Inr (Saved, ?tasks'[i := (?tasks' ! i)\<lparr>status := ''Completed''\<rparr>], stdin)"
    using found i(1) by (intro mark_completed_present) simp_all
  moreover have "?tasks'[i := (?tasks' ! i)\<lparr>status := ''Completed''\<rparr>] = ?tasks'"
    by (simp add: at_i)
  ultimately have run2: "mark_completed ?tasks' (line2 # stdin) = Inr (Saved, ?tasks', stdin)"
    by simp
  have same: "?tasks' = tasks" if "status (tasks ! i) = ''Completed''"
  proof -
    from that have "(tasks ! i)\<lparr>status := ''Completed''\<rparr> = tasks ! i"
      by (cases "tasks ! i") simp
    then show ?thesis by simp
  qed
  show ?thesis
    apply (rule exI [of _ i], rule exI [of _ ?tasks'])
    using run1 run2 i(1,2,3) same by (simp add: at_i)
qed

theorem mark_completed_idempotent_witness:
  "strip '' 2'' \<in> task_id ` set [milk, bills] \<and> strip ''2'' = strip '' 2'' \<and>
   mark_completed [milk, bills] ['' 2'', ''2''] =
     Inr (Saved, [milk, bills\<lparr>status := ''Completed''\<rparr>], [''2'']) \<and>
   mark_completed [milk, bills\<lparr>status := ''Completed''\<rparr>] [''2''] =
     Inr (Saved, [milk, bills\<lparr>status := ''Completed''\<rparr>], [])"
proof -
  have s: "strip '' 2'' = ''2''" "strip ''2'' = ''2''" by (simp_all add: strip_def isspace_def)
  have pre1: "strip '' 2'' \<in> task_id ` set [milk, bills]"
    unfolding s by (simp add: bills_def)
  have pre2: "strip ''2'' = strip '' 2''" unfolding s by simp
  obtain i tasks' where r:
    "mark_completed [milk, bills] ['' 2'', ''2''] = Inr (Saved, tasks', [''2''])"
    "mark_completed tasks' [''2''] = Inr (Saved, tasks', [])"
    using mark_completed_idempotent [OF pre1 pre2, of "[]"] by blast
  have "mark_completed [milk, bills] ['' 2'', ''2''] =
          Inr (Saved, [milk, bills\<lparr>status := ''Completed''\<rparr>], [''2''])"
    by (simp add: mark_completed_def input_def s milk_def bills_def)
  with r(1) have "tasks' = [milk, bills\<lparr>status := ''Completed''\<rparr>]" by simp
  with r pre1 pre2 show ?thesis by simp
qed

section \<open>Unique ids\<close>

text \<open>
  \<^verbatim>\<open>add_task\<close> appends one task, whose id is the generated one and so is new;
  \<^verbatim>\<open>update_task\<close> and \<^verbatim>\<open>mark_completed\<close> leave the list of ids as it is;
  \<^verbatim>\<open>delete_task\<close> removes at most one position.
\<close>

lemma generate_task_id_fresh: "generate_task_id tasks \<notin> task_id ` set tasks"
  using id_loop_spec [of 1 "fset_of_list (map task_id tasks)"]
  by (simp add: generate_task_id_def fset_of_list.rep_eq)

lemma add_task_appends:
  assumes "add_task strptime_ok tasks stdin = Inr (out, tasks', stdin')"
  shows "\<exists>t. tasks' = tasks @ [t] \<and> task_id t = generate_task_id tasks \<and> status t = ''Pending''"
  using assms
  by (auto simp: add_task_def Let_def split: sum.splits prod.splits)

lemma update_description_task_id:
  "update_description task stdin = Inr (task', stdin') \<Longrightarrow> task_id task' = task_id task"
  by (auto simp: update_description_def input_def Let_def split: list.splits if_splits)

lemma update_due_date_task_id:
  "update_due_date strptime_ok task stdin = Inr (task', stdin') \<Longrightarrow> task_id task' = task_id task"
  by (induction stdin) (auto simp: Let_def split: if_splits)

lemma update_status_task_id:
  "update_status task stdin = Inr (task', stdin') \<Longrightarrow> task_id task' = task_id task"
  by (auto simp: update_status_def input_def Let_def split: list.splits if_splits)

lemma update_priority_task_id:
  "update_priority task stdin = Inr (task', stdin') \<Longrightarrow> task_id task' = task_id task"
  by (auto simp: update_priority_def input_def Let_def split: list.splits if_splits)

lemma update_fields_task_id:
  assumes "update_fields strptime_ok task stdin = Inr (task', stdin')"
  shows "task_id task' = task_id task"
proof -
  from assms obtain t1 s1 t2 s2 t3 s3 where
    "update_description task stdin = Inr (t1, s1)"
    "update_due_date strptime_ok t1 s1 = Inr (t2, s2)"
    "update_status t2 s2 = Inr (t3, s3)"
    "update_priority t3 s3 = Inr (task', stdin')"
    by (auto simp: update_fields_def split: sum.splits prod.splits)
  then show ?thesis
    using update_description_task_id update_due_date_task_id update_status_task_id
      update_priority_task_id by metis
qed

lemma map_task_id_update:
  assumes "i < length tasks" "task_id task' = task_id (tasks ! i)"
  shows "map task_id (tasks[i := task']) = map task_id tasks"
  using assms by (simp add: map_update list_update_same_conv)

lemma update_task_ids:
  assumes "update_task strptime_ok tasks stdin = Inr (out, tasks', stdin')"
  shows "map task_id tasks' = map task_id tasks"
proof -
  from assms obtain line stdin1 where inp: "stdin = line # stdin1"
    by (cases stdin) (auto simp: update_task_def input_def)
  show ?thesis
  proof (cases "find_task (enumerate 0 tasks) (strip line)")
    case None
    with assms inp show ?thesis by (simp add: update_task_def input_def)
  next
    case (Some p)
    obtain i task where p: "p = (i, task)" by (cases p)
    from find_task_first [OF Some [unfolded p]]
    have i: "i < length tasks" "tasks ! i = task" by auto
    from assms inp Some p obtain task' where
      u: "update_fields strptime_ok task stdin1 = Inr (task', stdin')" "tasks' = tasks[i := task']"
      by (auto simp: update_task_def input_def split: sum.splits prod.splits)
    from update_fields_task_id [OF u(1)] i u(2) show ?thesis
      by (simp add: map_task_id_update)
  qed
qed

lemma mark_completed_ids:
  assumes "mark_completed tasks stdin = Inr (out, tasks', stdin')"
  shows "map task_id tasks' = map task_id tasks"
proof -
  from assms obtain line stdin1 where inp: "stdin = line # stdin1"
    by (cases stdin) (auto simp: mark_completed_def input_def)
  show ?thesis
  proof (cases "find_task (enumerate 0 tasks) (strip line)")
    case None
    with assms inp show ?thesis by (simp add: mark_completed_def input_def)
  next
    case (Some p)
    obtain i task where p: "p = (i, task)" by (cases p)
    from find_task_first [OF Some [unfolded p]]
    have i: "i < length tasks" "tasks ! i = task" by auto
    from assms inp Some p have "tasks' = tasks[i := task\<lparr>status := ''Completed''\<rparr>]"
      by (simp add: mark_completed_def input_def)
    with i show ?thesis by (simp add: map_task_id_update)
  qed
qed

lemma distinct_pop: "distinct xs \<Longrightarrow> distinct (pop xs i)"
proof -
  assume d: "distinct xs"
  have "distinct (take i xs @ drop i xs)" using d by simp
  then have "set (take i xs) \<inter> set (drop i xs) = {}" by (simp only: distinct_append)
  moreover have "set (drop (Suc i) xs) \<subseteq> set (drop i xs)"
    by (rule set_drop_subset_set_drop) simp
  ultimately have "set (take i xs) \<inter> set (drop (Suc i) xs) = {}" by blast
  with d show ?thesis by (simp add: pop_def)
qed

lemma map_pop: "map f (pop xs i) = pop (map f xs) i"
  by (simp add: pop_def take_map drop_map)

lemma delete_task_cases:
  assumes "delete_task tasks stdin = Inr (out, tasks', stdin')"
  shows "tasks' = tasks \<or> (\<exists>i. tasks' = pop tasks i)"
  using assms
  by (auto simp: delete_task_def input_def Let_def split: list.splits option.splits)

lemma delete_task_distinct:
  assumes "delete_task tasks stdin = Inr (out, tasks', stdin')" "distinct (map task_id tasks)"
  shows "distinct (map task_id tasks')"
  using delete_task_cases [OF assms(1)] assms(2) by (auto simp: map_pop distinct_pop)

lemma store_step_distinct:
  assumes "store_step strptime_ok tasks tasks'" "distinct (map task_id tasks)"
  shows "distinct (map task_id tasks')"
  using assms
proof (induction rule: store_step.induct)
  case (Add tasks stdin out tasks' stdin')
  from add_task_appends [OF Add.hyps] obtain t where
    "tasks' = tasks @ [t]" "task_id t = generate_task_id tasks" by blast
  with Add.prems generate_task_id_fresh [of tasks] show ?case by simp
next
  case (Update tasks stdin out tasks' stdin')
  then show ?case by (simp add: update_task_ids)
next
  case (MarkCompleted tasks stdin out tasks' stdin')
  then show ?case by (simp add: mark_completed_ids)
next
  case (Delete tasks stdin out tasks' stdin')
  then show ?case by (simp add: delete_task_distinct)
qed

text \<open>
  Claim C2. From a store whose ids are distinct, every sequence of \<^verbatim>\<open>add_task\<close>,
  \<^verbatim>\<open>update_task\<close>, \<^verbatim>\<open>mark_completed\<close> and \<^verbatim>\<open>delete_task\<close> (each a \<open>store_step\<close>) leads to
  a store whose ids are distinct; and the task that a further \<^verbatim>\<open>add_task\<close> appends has an
  id that no task of the store has, so that the ids stay distinct.
\<close>

theorem unique_ids_invariant:
  assumes "distinct (map task_id tasks)"
    and "(store_step strptime_ok)\<^sup>*\<^sup>* tasks tasks'"
  shows "distinct (map task_id tasks') \<and>
         (\<forall>stdin out tasks'' stdin''.
            add_task strptime_ok tasks' stdin = Inr (out, tasks'', stdin'') \<longrightarrow>
            (\<exists>t. tasks'' = tasks' @ [t] \<and> task_id t \<notin> task_id ` set tasks' \<and>
                 distinct (map task_id tasks'')))"
proof -
  from assms(2) assms(1) have d: "distinct (map task_id tasks')"
    by (induction rule: rtranclp_induct) (auto intro: store_step_distinct)
  have "\<exists>t. tasks'' = tasks' @ [t] \<and> task_id t \<notin> task_id ` set tasks' \<and>
             distinct (map task_id tasks'')"
    if "add_task strptime_ok tasks' stdin = Inr (out, tasks'', stdin'')"
    for stdin out tasks'' stdin''
  proof -
    from add_task_appends [OF that] obtain t where
      t: "tasks'' = tasks' @ [t]" "task_id t = generate_task_id tasks'" by blast
    with generate_task_id_fresh [of tasks'] d show ?thesis by simp
  qed
  with d show ?thesis by blast
qed

theorem unique_ids_invariant_witness:
  "distinct (map task_id []) \<and>
   (store_step sample_strptime_ok)\<^sup>*\<^sup>* [] [bills, errand] \<and>
   map task_id [bills, errand] = [''2'', ''1''] \<and>
   distinct (map task_id [bills, errand])"
proof -
  have cap: "capitalize (strip ''low'') = ''Low''" "capitalize (strip '' HIGH'') = ''High''"
    "capitalize (strip ''urgent'') = ''Urgent''" "capitalize (strip ''medium'') = ''Medium''"
    by (simp_all add: capitalize_def strip_def isspace_def lower_def lower_char_def
        upper_char_def)
  have st: "strip ''Buy milk'' = ''Buy milk''" "strip [] = []" "strip ''2024-01-05'' = ''2024-01-05''"
    "strip ''Pay bills'' = ''Pay bills''" "strip ''rent and power '' = ''rent and power''"
    "strip ''2024-01-01'' = ''2024-01-01''" "strip ''1'' = ''1''"
    "strip ''Post letter'' = ''Post letter''" "strip ''tomorrow'' = ''tomorrow''"
    by (simp_all add: strip_def isspace_def)
  have id1: "generate_task_id [] = ''1''"
    by (simp add: generate_task_id_def id_loop.simps str_def str_nat.simps digit_char_def)
  have id2: "generate_task_id [milk] = ''2''"
    by (simp add: generate_task_id_def id_loop.simps str_def str_nat.simps digit_char_def
        milk_def)
  have id3: "generate_task_id [bills] = ''1''"
    by (simp add: generate_task_id_def id_loop.simps str_def str_nat.simps digit_char_def
        bills_def)
  have a1: "add_task sample_strptime_ok [] [''Buy milk'', [], ''2024-01-05'', ''low''] =
              Inr (Saved, [milk], [])"
    by (simp add: add_task_def input_def validate_date_def sample_strptime_ok_def
        PRIORITY_LEVELS_def cap st id1 milk_def)
  have a2: "add_task sample_strptime_ok [milk]
              [''Pay bills'', ''rent and power '', ''2024-01-01'', '' HIGH''] =
              Inr (Saved, [milk, bills], [])"
    by (simp add: add_task_def input_def validate_date_def sample_strptime_ok_def
        PRIORITY_LEVELS_def cap st id2 bills_def)
  have d: "delete_task [milk, bills] [''1''] = Inr (Saved, [bills], [])"
    by (simp add: delete_task_def input_def st pop_def milk_def)
  have a3: "add_task sample_strptime_ok [bills]
              [''Post letter'', [], ''tomorrow'', ''2024-01-01'', ''urgent'', ''medium''] =
              Inr (Saved, [bills, errand], [])"
    by (simp add: add_task_def input_def validate_date_def sample_strptime_ok_def
        PRIORITY_LEVELS_def cap st id3 errand_def)
  have run: "(store_step sample_strptime_ok)\<^sup>*\<^sup>* [] [bills, errand]"
    using store_step.Add [OF a1] store_step.Add [OF a2] store_step.Delete [OF d]
      store_step.Add [OF a3]
    by (meson rtranclp.rtrancl_into_rtrancl rtranclp.rtrancl_refl)
  have start: "distinct (map task_id [])" by simp
  have ids: "map task_id [bills, errand] = [''2'', ''1'']"
    by (simp add: bills_def errand_def)
  from unique_ids_invariant [OF start run] have "distinct (map task_id [bills, errand])"
    by blast
  with start run ids show ?thesis by blast
qed

section \<open>Deleting a task\<close>

text \<open>
  What the commands that print a table show is taken from the store: a task that is not
  in the store is in none of their results.
\<close>

lemma delete_task_present:
  assumes "find_task (enumerate 0 tasks) (strip line) = Some (i, task)"
  shows "delete_task tasks (line # stdin) = Inr (Saved, pop tasks i, stdin)"
  using assms by (simp add: delete_task_def input_def)

lemma delete_task_absent:
  assumes "strip line \<notin> task_id ` set tasks"
  shows "delete_task tasks (line # stdin) = Inr (NotFound, tasks, stdin)"
proof -
  from assms have "find_task (enumerate 0 tasks) (strip line) = None"
    by (simp add: find_task_None_iff)
  then show ?thesis by (simp add: delete_task_def input_def)
qed

lemma length_pop: "i < length xs \<Longrightarrow> length (pop xs i) = length xs - 1"
  by (auto simp: pop_def)

lemma pop_removes_distinct:
  assumes "distinct (map f xs)" "i < length xs"
  shows "f (xs ! i) \<notin> f ` set (pop xs i)"
proof -
  have split: "map f xs = map f (take i xs) @ f (xs ! i) # map f (drop (Suc i) xs)"
    using assms(2) by (metis id_take_nth_drop list.simps(9) map_append)
  from assms(1) have "distinct (map f (take i xs) @ f (xs ! i) # map f (drop (Suc i) xs))"
    unfolding split [symmetric] .
  then have "f (xs ! i) \<notin> set (map f (take i xs))" "f (xs ! i) \<notin> set (map f (drop (Suc i) xs))"
    by auto
  then show ?thesis by (auto simp: pop_def)
qed

lemma search_tasks_subset:
  "search_tasks tasks stdin = Inr (found, rest) \<Longrightarrow> set found \<subseteq> set tasks"
  by (auto simp: search_tasks_def input_def Let_def split: list.splits)

lemma filter_tasks_subset:
  "filter_tasks tasks stdin = Inr (Filtered found, rest) \<Longrightarrow> set found \<subseteq> set tasks"
  by (auto simp: filter_tasks_def input_def Let_def split: list.splits if_splits)

lemma set_sort_tasks: "set (sort_tasks tasks) = set tasks"
  by (simp add: sort_tasks_def)

text \<open>
  Claim C3. When no task has the id read from the input, \<^verbatim>\<open>delete_task\<close> reports that the
  id was not found and leaves the store as it is. When a task has it, \<^verbatim>\<open>delete_task\<close>
  removes the first task with that id, at position \<open>i\<close>, and saves the rest in its order;
  the total of the summary is one less. In a store whose ids are distinct that task was
  the only one with the id: afterwards no task of the store has it, and neither has a task
  that \<^verbatim>\<open>search_tasks\<close>, \<^verbatim>\<open>filter_tasks\<close> or \<^verbatim>\<open>sort_tasks\<close> shows, whatever is entered.
\<close>

theorem delete_task_removes:
  "(strip line \<notin> task_id ` set tasks \<longrightarrow>
      delete_task tasks (line # stdin) = Inr (NotFound, tasks, stdin)) \<and>
   (strip line \<in> task_id ` set tasks \<longrightarrow>
      (\<exists>i tasks'. delete_task tasks (line # stdin) = Inr (Saved, tasks', stdin) \<and>
         i < length tasks \<and> task_id (tasks ! i) = strip line \<and>
         (\<forall>j<i. task_id (tasks ! j) \<noteq> strip line) \<and>
         tasks' = take i tasks @ drop (Suc i) tasks \<and>
         total (task_summary tasks') = total (task_summary tasks) - 1 \<and>
         (distinct (map task_id tasks) \<longrightarrow>
            strip line \<notin> task_id ` set tasks' \<and>
            (\<forall>inp found rest. search_tasks tasks' inp = Inr (found, rest) \<longrightarrow>
               strip line \<notin> task_id ` set found) \<and>
            (\<forall>inp found rest. filter_tasks tasks' inp = Inr (Filtered found, rest) \<longrightarrow>
               strip line \<notin> task_id ` set found) \<and>
            strip line \<notin> task_id ` set (sort_tasks tasks'))))"
proof (intro conjI impI)
  assume "strip line \<notin> task_id ` set tasks"
  then show "delete_task tasks (line # stdin) = Inr (NotFound, tasks, stdin)"
    by (rule delete_task_absent)
next
  let ?tid = "strip line"
  assume "?tid \<in> task_id ` set tasks"
  then obtain i where i: "i < length tasks" "task_id (tasks ! i) = ?tid"
    "\<forall>j<i. task_id (tasks ! j) \<noteq> ?tid"
    "find_task (enumerate 0 tasks) ?tid = Some (i, tasks ! i)"
    by (rule find_task_present)
  let ?tasks' = "take i tasks @ drop (Suc i) tasks"
  have run: "delete_task tasks (line # stdin) = Inr (Saved, ?tasks', stdin)"
    using delete_task_present [OF i(4)] by (simp add: pop_def)
  have len: "total (task_summary ?tasks') = total (task_summary tasks) - 1"
    using i(1) length_pop [of i tasks] by (simp add: task_summary_def pop_def)
  have gone: "?tid \<notin> task_id ` set ?tasks'" if "distinct (map task_id tasks)"
    using pop_removes_distinct [OF that i(1)] i(2) by (simp add: pop_def)
  have after: "?tid \<notin> task_id ` set found"
    if "distinct (map task_id tasks)" "set found \<subseteq> set ?tasks'" for found
    using gone [OF that(1)] that(2) by blast
  have inner: "?tid \<notin> task_id ` set ?tasks' \<and>
      (\<forall>inp found rest. search_tasks ?tasks' inp = Inr (found, rest) \<longrightarrow>
         ?tid \<notin> task_id ` set found) \<and>
      (\<forall>inp found rest. filter_tasks ?tasks' inp = Inr (Filtered found, rest) \<longrightarrow>
         ?tid \<notin> task_id ` set found) \<and>
      ?tid \<notin> task_id ` set (sort_tasks ?tasks')"
    if d: "distinct (map task_id tasks)"
  proof (intro conjI allI impI)
    show "?tid \<notin> task_id ` set ?tasks'" by (rule gone [OF d])
  next
    fix inp found rest
    assume "search_tasks ?tasks' inp = Inr (found, rest)"
    then have "set found \<subseteq> set ?tasks'" by (rule search_tasks_subset)
    then show "?tid \<notin> task_id ` set found" by (rule after [OF d])
  next
    fix inp found rest
    assume "filter_tasks ?tasks' inp = Inr (Filtered found, rest)"
    then have "set found \<subseteq> set ?tasks'" by (rule filter_tasks_subset)
    then show "?tid \<notin> task_id ` set found" by (rule after [OF d])
  next
    show "?tid \<notin> task_id ` set (sort_tasks ?tasks')"
      using gone [OF d] by (simp add: set_sort_tasks)
  qed
  show "\<exists>i tasks'. delete_task tasks (line # stdin) = Inr (Saved, tasks', stdin) \<and>
         i < length tasks \<and> task_id (tasks ! i) = strip line \<and>
         (\<forall>j<i. task_id (tasks ! j) \<noteq> strip line) \<and>
         tasks' = take i tasks @ drop (Suc i) tasks \<and>
         total (task_summary tasks') = total (task_summary tasks) - 1 \<and>
         (distinct (map task_id tasks) \<longrightarrow>
            strip line \<notin> task_id ` set tasks' \<and>
            (\<forall>inp found rest. search_tasks tasks' inp = Inr (found, rest) \<longrightarrow>
               strip line \<notin> task_id ` set found) \<and>
            (\<forall>inp found rest. filter_tasks tasks' inp = Inr (Filtered found, rest) \<longrightarrow>
               strip line \<notin> task_id ` set found) \<and>
            strip line \<notin> task_id ` set (sort_tasks tasks'))"
    apply (rule exI [of _ i], rule exI [of _ ?tasks'])
    using run i(1,2,3) len inner by blast
qed

theorem delete_task_removes_witness:
  "strip ''2'' \<in> task_id ` set [milk, bills, legacy] \<and>
   distinct (map task_id [milk, bills, legacy]) \<and>
   delete_task [milk, bills, legacy] [''2'', ''next''] = Inr (Saved, [milk, legacy], [''next'']) \<and>
   total (task_summary [milk, legacy]) = total (task_summary [milk, bills, legacy]) - 1 \<and>
   ''2'' \<notin> task_id ` set (sort_tasks [milk, legacy]) \<and>
   strip ''9'' \<notin> task_id ` set [milk, bills, legacy] \<and>
   delete_task [milk, bills, legacy] [''9''] = Inr (NotFound, [milk, bills, legacy], [])"
proof -
  let ?store = "[milk, bills, legacy]"
  have s: "strip ''2'' = ''2''" "strip ''9'' = ''9''" by (simp_all add: strip_def isspace_def)
  have ids: "map task_id ?store = [''1'', ''2'', ''3'']"
    by (simp add: milk_def bills_def legacy_def)
  have present: "strip ''2'' \<in> task_id ` set ?store"
    unfolding s by (simp add: bills_def)
  have absent: "strip ''9'' \<notin> task_id ` set ?store"
    unfolding s by (simp add: milk_def bills_def legacy_def)
  have d: "distinct (map task_id ?store)" unfolding ids by simp
  have not_found: "delete_task ?store [''9''] = Inr (NotFound, ?store, [])"
    using delete_task_removes [of "''9''" ?store "[]"] absent by blast
  obtain i tasks' where r:
    "delete_task ?store [''2'', ''next''] = Inr (Saved, tasks', [''next''])"
    "total (task_summary tasks') = total (task_summary ?store) - 1"
    "distinct (map task_id ?store) \<longrightarrow> strip ''2'' \<notin> task_id ` set (sort_tasks tasks')"
    using delete_task_removes [of "''2''" ?store "[''next'']"] present by blast
  have "delete_task ?store [''2'', ''next''] = Inr (Saved, [milk, legacy], [''next''])"
    by (simp add: delete_task_def input_def s pop_def milk_def bills_def)
  with r(1) have "tasks' = [milk, legacy]" by simp
  with r d s present absent not_found show ?thesis by simp
qed

section \<open>Updating a task\<close>

text \<open>A blank answer to each of the four questions leaves the task as it is.\<close>

lemma capitalize_blank: "capitalize [] = []"
  by (simp add: capitalize_def)

lemma update_fields_blank:
  assumes "strip line1 = []" "strip line2 = []" "strip line3 = []" "strip line4 = []"
  shows "update_fields strptime_ok task (line1 # line2 # line3 # line4 # stdin) = Inr (task, stdin)"
proof -
  have "update_description task (line1 # line2 # line3 # line4 # stdin) =
          Inr (task, line2 # line3 # line4 # stdin)"
    using assms(1) by (simp add: update_description_def input_def)
  moreover have "update_due_date strptime_ok task (line2 # line3 # line4 # stdin) =
          Inr (task, line3 # line4 # stdin)"
    using assms(2) by simp
  moreover have "update_status task (line3 # line4 # stdin) = Inr (task, line4 # stdin)"
    using assms(3) by (simp add: update_status_def input_def capitalize_blank STATUS_OPTIONS_def)
  moreover have "update_priority task (line4 # stdin) = Inr (task, stdin)"
    using assms(4)
    by (simp add: update_priority_def input_def capitalize_blank PRIORITY_LEVELS_def)
  ultimately show ?thesis by (simp add: update_fields_def)
qed

text \<open>
  Claim C6. When the id read from the input is the id of a task of the store and the four
  answers that follow are blank (empty once stripped), \<^verbatim>\<open>update_task\<close> saves the store
  unchanged, whatever \<^verbatim>\<open>strptime\<close> accepts.
\<close>

theorem update_task_blank_identity:
  assumes "strip line0 \<in> task_id ` set tasks"
    and "strip line1 = []" "strip line2 = []" "strip line3 = []" "strip line4 = []"
  shows "update_task strptime_ok tasks (line0 # line1 # line2 # line3 # line4 # stdin) =
           Inr (Saved, tasks, stdin)"
proof -
  from assms(1) obtain i where i: "i < length tasks"
    "find_task (enumerate 0 tasks) (strip line0) = Some (i, tasks ! i)"
    by (rule find_task_present)
  have "update_fields strptime_ok (tasks ! i) (line1 # line2 # line3 # line4 # stdin) =
          Inr (tasks ! i, stdin)"
    using assms(2-5) by (rule update_fields_blank)
  with i(2) show ?thesis
    by (simp add: update_task_def input_def)
qed

theorem update_task_blank_identity_witness:
  "strip ''2'' \<in> task_id ` set [milk, bills] \<and>
   strip [] = [] \<and> strip '' '' = [] \<and> strip ''  '' = [] \<and>
   update_task sample_strptime_ok [milk, bills] [''2'', [], '' '', [], ''  '', ''next''] =
     Inr (Saved, [milk, bills], [''next''])"
proof -
  have s: "strip ''2'' = ''2''" "strip [] = []" "strip '' '' = []" "strip ''  '' = []"
    by (simp_all add: strip_def isspace_def)
  have present: "strip ''2'' \<in> task_id ` set [milk, bills]"
    unfolding s by (simp add: bills_def)
  from update_task_blank_identity [OF present s(2) s(3) s(2) s(4), of sample_strptime_ok "[''next'']"]
    present s
  show ?thesis by simp
qed

section \<open>The summary\<close>

lemma sum_list_ones: "sum_list (map (\<lambda>t. 1::int) xs) = int (length xs)"
  by (induction xs) simp_all

lemma count_status:
  "int (length (filter (\<lambda>t. status t = s) tasks)) = int (count_list (map status tasks) s)"
  by (induction tasks) simp_all

lemma two_statuses_partition:
  assumes "set (map status tasks) \<subseteq> {a, b}" "a \<noteq> b"
  shows "length tasks = length (filter (\<lambda>t. status t = a) tasks)
                        + length (filter (\<lambda>t. status t = b) tasks)"
  using assms by (induction tasks) auto

text \<open>
  Claim C7. For every list of tasks, the summary's total is the length of the list, its
  pending count is the number of tasks whose status is \<^verbatim>\<open>Pending\<close> and its completed count
  the number of tasks whose status is \<^verbatim>\<open>Completed\<close>; when every status in the list is one
  of the two values of \<^verbatim>\<open>STATUS_OPTIONS\<close>, the total is the sum of the two counts.
\<close>

theorem task_summary_counts:
  "total (task_summary tasks) = int (length tasks) \<and>
   pending (task_summary tasks) = int (count_list (map status tasks) ''Pending'') \<and>
   completed (task_summary tasks) = int (count_list (map status tasks) ''Completed'') \<and>
   (set (map status tasks) \<subseteq> set STATUS_OPTIONS \<longrightarrow>
      total (task_summary tasks) = pending (task_summary tasks) + completed (task_summary tasks))"
proof -
  have t: "total (task_summary tasks) = int (length tasks)"
    by (simp add: task_summary_def)
  have p: "pending (task_summary tasks) = int (length (filter (\<lambda>t. status t = ''Pending'') tasks))"
    by (simp add: task_summary_def sum_list_ones)
  have c: "completed (task_summary tasks) =
             int (length (filter (\<lambda>t. status t = ''Completed'') tasks))"
    by (simp add: task_summary_def sum_list_ones)
  have sum: "total (task_summary tasks) = pending (task_summary tasks) + completed (task_summary tasks)"
    if "set (map status tasks) \<subseteq> set STATUS_OPTIONS"
  proof -
    from that have "set (map status tasks) \<subseteq> {''Pending'', ''Completed''}"
      by (simp add: STATUS_OPTIONS_def)
    then have "length tasks = length (filter (\<lambda>t. status t = ''Pending'') tasks)
                            + length (filter (\<lambda>t. status t = ''Completed'') tasks)"
      by (rule two_statuses_partition) simp
    then show ?thesis unfolding t p c by simp
  qed
  show ?thesis
    using t sum unfolding p c count_status by blast
qed

theorem task_summary_counts_witness:
  "set (map status [milk, bills, legacy]) \<subseteq> set STATUS_OPTIONS \<and>
   total (task_summary [milk, bills, legacy]) = 3 \<and>
   pending (task_summary [milk, bills, legacy]) = 2 \<and>
   completed (task_summary [milk, bills, legacy]) = 1 \<and>
   total (task_summary [milk, bills, legacy]) =
     pending (task_summary [milk, bills, legacy]) + completed (task_summary [milk, bills, legacy])"
proof -
  have st: "map status [milk, bills, legacy] = [''Pending'', ''Pending'', ''Completed'']"
    by (simp add: milk_def bills_def legacy_def)
  have ok: "set (map status [milk, bills, legacy]) \<subseteq> set STATUS_OPTIONS"
    unfolding st by (simp add: STATUS_OPTIONS_def)
  from task_summary_counts [of "[milk, bills, legacy]"] ok
  show ?thesis unfolding st by simp
qed

section \<open>Sorting by due date\<close>

text \<open>
  Claim C5. For every list of tasks, the list that \<^verbatim>\<open>sort_tasks\<close> shows has its due dates
  in non-decreasing lexicographic order; for every due date, the tasks with that date come
  in the order they had in the input (the sort is stable); it holds the tasks of the input,
  each as often; and sorting it again gives the same list.
\<close>

theorem sort_tasks_sorted_stable_idempotent:
  "sorted (map due_date (sort_tasks tasks)) \<and>
   (\<forall>d. filter (\<lambda>t. due_date t = d) (sort_tasks tasks) = filter (\<lambda>t. due_date t = d) tasks) \<and>
   mset (sort_tasks tasks) = mset tasks \<and>
   sort_tasks (sort_tasks tasks) = sort_tasks tasks"
proof -
  have s: "sorted (map due_date (sort_tasks tasks))"
    unfolding sort_tasks_def by (rule sorted_sort_key)
  have st: "filter (\<lambda>t. due_date t = d) (sort_tasks tasks) = filter (\<lambda>t. due_date t = d) tasks"
    for d unfolding sort_tasks_def by (rule sort_key_stable)
  have m: "mset (sort_tasks tasks) = mset tasks"
    unfolding sort_tasks_def by (rule mset_sort)
  have "sort_key due_date (sort_tasks tasks) = sort_tasks tasks"
    using s by (rule sort_key_id_if_sorted)
  then have i: "sort_tasks (sort_tasks tasks) = sort_tasks tasks"
    by (simp add: sort_tasks_def)
  from s st m i show ?thesis by blast
qed

lemma sort_tasks_example: "sort_tasks [milk, bills, legacy] = [bills, milk, legacy]"
  by (simp add: sort_tasks_def milk_def bills_def legacy_def)

section \<open>Filtering by priority\<close>

lemma get_priority_eq:
  "get_priority t = p \<longleftrightarrow> priority t = Some p \<or> (priority t = None \<and> p = ''Medium'')"
  by (auto simp: get_priority_def split: option.splits)

lemma capitalize_priority_level: "p \<in> set PRIORITY_LEVELS \<Longrightarrow> capitalize (strip p) = p"
  by (auto simp: PRIORITY_LEVELS_def capitalize_def strip_def isspace_def lower_def
      lower_char_def upper_char_def)

text \<open>
  Claim C8. When option 3 is chosen and the answer, stripped and capitalised, is a
  priority \<open>p\<close> of \<^verbatim>\<open>PRIORITY_LEVELS\<close>, \<^verbatim>\<open>filter_tasks\<close> shows exactly the tasks of the list, in
  their order, whose priority is \<open>p\<close>, where a task without the key \<^verbatim>\<open>priority\<close> counts as
  \<^verbatim>\<open>Medium\<close>: for \<open>p = ''Medium''\<close> every task without the key is shown. Entering \<open>p\<close> itself
  is such an answer.
\<close>

theorem filter_tasks_by_priority:
  assumes "strip line1 = ''3''" and "capitalize (strip line2) = p" and "p \<in> set PRIORITY_LEVELS"
  shows "\<exists>found. filter_tasks tasks (line1 # line2 # stdin) = Inr (Filtered found, stdin) \<and>
           found = filter (\<lambda>t. priority t = Some p \<or> (priority t = None \<and> p = ''Medium'')) tasks \<and>
           (\<forall>t. t \<in> set found \<longleftrightarrow>
                t \<in> set tasks \<and> (priority t = Some p \<or> (priority t = None \<and> p = ''Medium''))) \<and>
           capitalize (strip p) = p"
proof -
  have "filter_tasks tasks (line1 # line2 # stdin) =
          Inr (Filtered (filter (\<lambda>t. get_priority t = p) tasks), stdin)"
    using assms by (simp add: filter_tasks_def input_def)
  then show ?thesis
    using capitalize_priority_level [OF assms(3)] by (simp add: get_priority_eq)
qed

theorem filter_tasks_by_priority_witness:
  "strip '' 3'' = ''3'' \<and> capitalize (strip ''medium '') = ''Medium'' \<and>
   ''Medium'' \<in> set PRIORITY_LEVELS \<and>
   filter_tasks [milk, legacy, errand] ['' 3'', ''medium '', ''next''] =
     Inr (Filtered [legacy, errand], [''next''])"
proof -
  have a: "strip '' 3'' = ''3''" by (simp add: strip_def isspace_def)
  have b: "capitalize (strip ''medium '') = ''Medium''"
    by (simp add: capitalize_def strip_def isspace_def lower_def lower_char_def upper_char_def)
  have c: "''Medium'' \<in> set PRIORITY_LEVELS" by (simp add: PRIORITY_LEVELS_def)
  from filter_tasks_by_priority [OF a b c, of "[milk, legacy, errand]" "[''next'']"]
  have "filter_tasks [milk, legacy, errand] ['' 3'', ''medium '', ''next''] =
          Inr (Filtered (filter (\<lambda>t. priority t = Some ''Medium'' \<or> priority t = None)
                 [milk, legacy, errand]), [''next''])"
    by simp
  then show ?thesis using a b c by (simp add: milk_def legacy_def errand_def)
qed

section \<open>Loading the store\<close>

text \<open>
  Claim C9, as stated: \<^verbatim>\<open>load_tasks\<close> returns an empty sequence whenever the file does not
  hold a valid collection. It does not: only \<^verbatim>\<open>JSONDecodeError\<close> is caught. When the file
  holds the JSON text \<^verbatim>\<open>{}\<close>, \<^verbatim>\<open>json.load\<close> returns the empty dictionary, which is not a
  sequence, and \<^verbatim>\<open>load_tasks\<close> returns it.
\<close>

theorem load_tasks_wrong_shape_counterexample:
  "\<not> is_list (JDict []) \<and> load_tasks (Content (Loaded (JDict []))) \<noteq> JList []"
  by (simp add: load_tasks_def)

text \<open>
  Claim C9, amended: \<^verbatim>\<open>load_tasks\<close> returns the empty list when the file does not exist and
  when \<^verbatim>\<open>json.load\<close> raises \<^verbatim>\<open>JSONDecodeError\<close>, which it does not propagate; when the
  content is JSON it returns the decoded value as it is, a sequence of tasks or not.
\<close>

theorem load_tasks_cases:
  "load_tasks Missing = JList [] \<and>
   load_tasks (Content JSONDecodeError) = JList [] \<and>
   (\<forall>v. load_tasks (Content (Loaded v)) = v)"
  by (simp add: load_tasks_def)

end
